theory Spec2Isabelle
  imports Main "HOL-Library.Sublist" "HOL-Library.Multiset"
begin

section \<open>The layout renderer (the script of \<open>FRONTEND_HTML\<close>)\<close>

text \<open>
  A rectangle of a layout template: the four percentage strings of one slot.
\<close>

record rect =
  rleft :: string
  rtop :: string
  rwidth :: string
  rheight :: string

definition slot :: "string \<Rightarrow> string \<Rightarrow> string \<Rightarrow> string \<Rightarrow> rect" where
  "slot l t w h = \<lparr>rleft = l, rtop = t, rwidth = w, rheight = h\<rparr>"

text \<open>
  The object literal \<open>layouts\<close>: its keys are 1 to 5, every other key is \<open>undefined\<close>
  (here \<open>None\<close>).
\<close>

definition layouts :: "nat \<Rightarrow> rect list list option" where
  "layouts n =
    (if n = 1 then Some
       [[slot ''0%'' ''0%'' ''100%'' ''100%'']]
     else if n = 2 then Some
       [[slot ''0%'' ''0%'' ''50%'' ''100%'',
         slot ''50%'' ''0%'' ''50%'' ''100%''],
        [slot ''0%'' ''0%'' ''100%'' ''50%'',
         slot ''0%'' ''50%'' ''100%'' ''50%'']]
     else if n = 3 then Some
       [[slot ''0%'' ''0%'' ''60%'' ''100%'',
         slot ''60%'' ''0%'' ''40%'' ''50%'',
         slot ''60%'' ''50%'' ''40%'' ''50%''],
        [slot ''0%'' ''0%'' ''100%'' ''60%'',
         slot ''0%'' ''60%'' ''50%'' ''40%'',
         slot ''50%'' ''60%'' ''50%'' ''40%'']]
     else if n = 4 then Some
       [[slot ''0%'' ''0%'' ''50%'' ''50%'',
         slot ''50%'' ''0%'' ''50%'' ''50%'',
         slot ''0%'' ''50%'' ''50%'' ''50%'',
         slot ''50%'' ''50%'' ''50%'' ''50%'']]
     else if n = 5 then Some
       [[slot ''0%'' ''0%'' ''50%'' ''50%'',
         slot ''50%'' ''0%'' ''50%'' ''50%'',
         slot ''0%'' ''50%'' ''33.33%'' ''50%'',
         slot ''33.33%'' ''50%'' ''33.33%'' ''50%'',
         slot ''66.66%'' ''50%'' ''33.33%'' ''50%''],
        [slot ''0%'' ''0%'' ''100%'' ''60%'',
         slot ''0%'' ''60%'' ''25%'' ''40%'',
         slot ''25%'' ''60%'' ''25%'' ''40%'',
         slot ''50%'' ''60%'' ''25%'' ''40%'',
         slot ''75%'' ''60%'' ''25%'' ''40%'']]
     else None)"

text \<open>
  Reading an array out of range gives \<open>undefined\<close> in JavaScript; it does not throw.
\<close>

definition js_index :: "'a list \<Rightarrow> nat \<Rightarrow> 'a option" where
  "js_index xs i = (if i < length xs then Some (xs ! i) else None)"

text \<open>
  \<open>layouts[count] || layouts[1]\<close>: an array is truthy even when empty, \<open>undefined\<close> is
  falsy.
\<close>

definition pick_templates :: "nat \<Rightarrow> rect list list option" where
  "pick_templates cnt = (case layouts cnt of Some t \<Rightarrow> Some t | None \<Rightarrow> layouts 1)"

text \<open>
  \<open>Math.random()\<close> is a double in \<open>[0, 1)\<close> with 53 significant bits: \<open>m / 2^53\<close>,
  where \<open>m\<close> is the draw reduced below \<open>2^53\<close>. \<open>Math.floor(Math.random() * len)\<close> is
  then \<open>m * len div 2^53\<close> (exact in floating point for the lengths of the table, 1 and 2).
\<close>

definition random_index :: "nat \<Rightarrow> nat \<Rightarrow> nat" where
  "random_index r len = ((r mod 2 ^ 53) * len) div 2 ^ 53"

definition pick_layout :: "nat \<Rightarrow> nat \<Rightarrow> rect list option" where
  "pick_layout cnt r =
    (case pick_templates cnt of
       None \<Rightarrow> None
     | Some templates \<Rightarrow> js_index templates (random_index r (length templates)))"

text \<open>The children of \<open>#photoContainer\<close>: positioned images, or the paragraph of a message.\<close>

datatype element = Img string rect | Para string

datatype js_error = NetworkError | SyntaxError | TypeError

datatype fetch_outcome = Rejected | NotJson | Urls "string list"

record page =
  container :: "element list"
  console :: "js_error list"

text \<open>
  The body of \<open>imageUrls.forEach\<close>: \<open>layout[index]\<close> out of range is \<open>undefined\<close>, and
  reading \<open>pos.left\<close> of it throws; the images appended before stay in the container.
\<close>

fun place_images :: "rect list \<Rightarrow> nat \<Rightarrow> string list \<Rightarrow> element list \<Rightarrow> element list \<times> js_error option" where
  "place_images layout index [] cont = (cont, None)"
| "place_images layout index (url # urls) cont =
    (case js_index layout index of
       None \<Rightarrow> (cont, Some TypeError)
     | Some pos \<Rightarrow> place_images layout (Suc index) urls (cont @ [Img url pos]))"

text \<open>
  \<open>fetchAndDisplayImages\<close>, given how the fetch came out and the draw of \<open>Math.random\<close>.
  Everything thrown inside \<open>try\<close> reaches the \<open>catch\<close>, which writes to the console only.
\<close>

definition fetchAndDisplayImages :: "fetch_outcome \<Rightarrow> nat \<Rightarrow> page \<Rightarrow> page" where
  "fetchAndDisplayImages outcome r pg =
    (case outcome of
       Rejected \<Rightarrow> pg\<lparr>console := console pg @ [NetworkError]\<rparr>
     | NotJson \<Rightarrow> pg\<lparr>console := console pg @ [SyntaxError]\<rparr>
     | Urls imageUrls \<Rightarrow>
         (let cnt = length imageUrls in
          if cnt = 0 then pg\<lparr>container := [Para ''No images found'']\<rparr>
          else
            (case pick_templates cnt of
               None \<Rightarrow> pg\<lparr>console := console pg @ [TypeError]\<rparr>
             | Some templates \<Rightarrow>
                 (case js_index templates (random_index r (length templates)) of
                    None \<Rightarrow> pg\<lparr>container := [], console := console pg @ [TypeError]\<rparr>
                  | Some layout \<Rightarrow>
                      (case place_images layout 0 imageUrls [] of
                         (cont, None) \<Rightarrow> pg\<lparr>container := cont\<rparr>
                       | (cont, Some e) \<Rightarrow> pg\<lparr>container := cont, console := console pg @ [e]\<rparr>)))))"

text \<open>
  The script as a machine: the page, the number of calls of \<open>fetchAndDisplayImages\<close> that
  wait for their response, and whether the interval of \<open>setInterval\<close> is registered. The
  script never calls \<open>clearInterval\<close>.
\<close>

record renderer =
  shown :: page
  in_flight :: nat
  interval :: bool

datatype phase = Idle | Fetching

definition phase_of :: "renderer \<Rightarrow> phase" where
  "phase_of s = (if in_flight s = 0 then Idle else Fetching)"

datatype event = Load | Tick | Response fetch_outcome nat

definition initial :: renderer where
  "initial = \<lparr>shown = \<lparr>container = [], console = []\<rparr>, in_flight = 0, interval = False\<rparr>"

fun step :: "event \<Rightarrow> renderer \<Rightarrow> renderer" where
  "step Load s = s\<lparr>in_flight := Suc (in_flight s), interval := True\<rparr>"
| "step Tick s = (if interval s then s\<lparr>in_flight := Suc (in_flight s)\<rparr> else s)"
| "step (Response outcome r) s =
    (if in_flight s = 0 then s
     else s\<lparr>shown := fetchAndDisplayImages outcome r (shown s), in_flight := in_flight s - 1\<rparr>)"

definition shows_message :: "page \<Rightarrow> bool" where
  "shows_message pg = list_ex (\<lambda>e. case e of Para _ \<Rightarrow> True | Img _ _ \<Rightarrow> False) (container pg)"

definition failure :: "fetch_outcome \<Rightarrow> bool" where
  "failure outcome = (case outcome of Urls _ \<Rightarrow> False | _ \<Rightarrow> True)"

section \<open>Strings and paths (\<open>str\<close>, \<open>posixpath\<close>)\<close>

text \<open>
  Strings are byte strings. \<open>str.lower\<close> is modelled on ASCII letters; no other character
  lowers to a letter of the allowed extensions, so the suffix test below reads the same
  names as images as Python does.
\<close>

definition lower_char :: "char \<Rightarrow> char" where
  "lower_char c =
    (let n = (of_char c :: nat) in if 65 \<le> n \<and> n \<le> 90 then char_of (n + 32) else c)"

definition lower :: "string \<Rightarrow> string" where
  "lower s = map lower_char s"

definition startswith :: "string \<Rightarrow> string \<Rightarrow> bool" where
  "startswith s p = (take (length p) s = p)"

definition endswith :: "string \<Rightarrow> string \<Rightarrow> bool" where
  "endswith s p = (length p \<le> length s \<and> drop (length s - length p) s = p)"

text \<open>\<open>s.split('/')\<close> and \<open>'/'.join(xs)\<close>.\<close>

fun split_sep :: "string \<Rightarrow> string list" where
  "split_sep [] = [[]]"
| "split_sep (c # cs) =
    (if c = CHR ''/'' then [] # split_sep cs
     else (case split_sep cs of [] \<Rightarrow> [[c]] | x # xs \<Rightarrow> (c # x) # xs))"

fun join_sep :: "string list \<Rightarrow> string" where
  "join_sep [] = []"
| "join_sep [x] = x"
| "join_sep (x # y # ys) = x @ CHR ''/'' # join_sep (y # ys)"

definition isabs :: "string \<Rightarrow> bool" where
  "isabs p = startswith p ''/''"

text \<open>\<open>posixpath.join(a, b)\<close>, and \<open>join(*parts)\<close> for a non-empty list of parts.\<close>

definition join2 :: "string \<Rightarrow> string \<Rightarrow> string" where
  "join2 a b =
    (if startswith b ''/'' then b
     else if a = [] \<or> endswith a ''/'' then a @ b
     else a @ ''/'' @ b)"

definition join_all :: "string list \<Rightarrow> string" where
  "join_all parts = (case parts of [] \<Rightarrow> [] | a # p \<Rightarrow> foldl join2 a p)"

text \<open>
  \<open>posixpath.normpath\<close>: the loop over the components, with \<open>new_comps\<close> as accumulator,
  and the function around it.
\<close>

fun norm_comps :: "nat \<Rightarrow> string list \<Rightarrow> string list \<Rightarrow> string list" where
  "norm_comps initial_slashes new_comps [] = new_comps"
| "norm_comps initial_slashes new_comps (c # cs) =
    (if c = [] \<or> c = ''.'' then norm_comps initial_slashes new_comps cs
     else if c \<noteq> ''..'' \<or> (initial_slashes = 0 \<and> new_comps = [])
             \<or> (new_comps \<noteq> [] \<and> last new_comps = ''..'')
       then norm_comps initial_slashes (new_comps @ [c]) cs
     else if new_comps \<noteq> [] then norm_comps initial_slashes (butlast new_comps) cs
     else norm_comps initial_slashes new_comps cs)"

definition initial_slashes_of :: "string \<Rightarrow> nat" where
  "initial_slashes_of path =
    (if startswith path ''/'' then
       (if startswith path ''//'' \<and> \<not> startswith path ''///'' then 2 else 1)
     else 0)"

definition normpath :: "string \<Rightarrow> string" where
  "normpath path =
    (if path = [] then ''.''
     else
       (let initial_slashes = initial_slashes_of path;
            comps = norm_comps initial_slashes [] (split_sep path);
            path' = replicate initial_slashes CHR ''/'' @ join_sep comps
        in if path' = [] then ''.'' else path'))"

definition abspath :: "string \<Rightarrow> string \<Rightarrow> string" where
  "abspath cwd path = normpath (if isabs path then path else join2 cwd path)"

text \<open>
  \<open>genericpath.commonprefix\<close> of two lists of components: the longest common prefix (the
  library takes the least and the greatest of the two and cuts the least at the first
  difference).
\<close>

fun commonprefix :: "'a list \<Rightarrow> 'a list \<Rightarrow> 'a list" where
  "commonprefix (x # xs) (y # ys) = (if x = y then x # commonprefix xs ys else [])"
| "commonprefix _ _ = []"

datatype py_error = PyTypeError | ValueError | PermissionError | FileNotFoundError

text \<open>
  \<open>posixpath.relpath(path, start)\<close>; \<open>start=None\<close> stands for the current directory, and an
  empty \<open>path\<close> raises \<open>ValueError\<close>.
\<close>

definition relpath :: "string \<Rightarrow> string \<Rightarrow> string option \<Rightarrow> py_error + string" where
  "relpath cwd path start_opt =
    (if path = [] then Inl ValueError
     else
       (let start = (case start_opt of None \<Rightarrow> ''.'' | Some s \<Rightarrow> s);
            start_list = filter (\<lambda>x. x \<noteq> []) (split_sep (abspath cwd start));
            path_list = filter (\<lambda>x. x \<noteq> []) (split_sep (abspath cwd path));
            i = length (commonprefix start_list path_list);
            rel_list = replicate (length start_list - i) ''..'' @ drop i path_list
        in if rel_list = [] then Inr ''.'' else Inr (join_all rel_list)))"

section \<open>The file system\<close>

text \<open>
  A directory entry is a regular file (readable or not, with its bytes), a directory
  (listable or not, with its named entries), or anything else that is not a directory: a
  FIFO, a socket, a device, a dangling link. Links that resolve are not modelled, and a
  directory can always be passed through on the way to an entry.
\<close>

datatype node =
    Regular bool string
  | Directory bool "(string \<times> node) list"
  | Special

record world =
  fs_root :: node
  getcwd :: string
  root_path :: string

fun is_dir :: "node \<Rightarrow> bool" where
  "is_dir (Directory _ _) = True"
| "is_dir _ = False"

text \<open>The node at a location, the list of names that leads to it from a node.\<close>

fun node_at :: "node \<Rightarrow> string list \<Rightarrow> node option" where
  "node_at n [] = Some n"
| "node_at (Directory _ entries) (c # cs) =
    (case map_of entries c of None \<Rightarrow> None | Some m \<Rightarrow> node_at m cs)"
| "node_at _ (c # cs) = None"

text \<open>
  Path resolution as the kernel does it, component by component from a location: an empty
  component and \<open>.\<close> stay, \<open>..\<close> goes to the parent (the root is its own parent), a name
  goes down; every component needs a directory to start from.
\<close>

fun resolve_comps :: "node \<Rightarrow> string list \<Rightarrow> string list \<Rightarrow> string list option" where
  "resolve_comps rt loc [] = Some loc"
| "resolve_comps rt loc (c # cs) =
    (case node_at rt loc of
       Some (Directory _ entries) \<Rightarrow>
         (if c = [] \<or> c = ''.'' then resolve_comps rt loc cs
          else if c = ''..'' then resolve_comps rt (butlast loc) cs
          else (case map_of entries c of
                  None \<Rightarrow> None
                | Some _ \<Rightarrow> resolve_comps rt (loc @ [c]) cs))
     | _ \<Rightarrow> None)"

text \<open>\<open>os.stat\<close>: the location and the node of a path, \<open>None\<close> for an \<open>OSError\<close>.\<close>

definition stat :: "world \<Rightarrow> string \<Rightarrow> (string list \<times> node) option" where
  "stat w path =
    (if path = [] then None
     else
       (case resolve_comps (fs_root w) []
               (split_sep (if isabs path then path else getcwd w @ ''/'' @ path)) of
          None \<Rightarrow> None
        | Some loc \<Rightarrow>
            (case node_at (fs_root w) loc of None \<Rightarrow> None | Some n \<Rightarrow> Some (loc, n))))"


text \<open>
  Well-formed trees: the names of a directory are distinct, non-empty, free of \<open>/\<close> and
  none is \<open>.\<close> or \<open>..\<close>.
\<close>

definition valid_name :: "string \<Rightarrow> bool" where
  "valid_name s = (s \<noteq> [] \<and> CHR ''/'' \<notin> set s \<and> s \<noteq> ''.'' \<and> s \<noteq> ''..'')"

fun wf_node :: "node \<Rightarrow> bool"
  and wf_entries :: "(string \<times> node) list \<Rightarrow> bool" where
  "wf_node (Directory _ entries) = wf_entries entries"
| "wf_node _ = True"
| "wf_entries [] = True"
| "wf_entries ((name, child) # entries) =
    (valid_name name \<and> name \<notin> set (map fst entries) \<and> wf_node child \<and> wf_entries entries)"

section \<open>\<open>os.walk\<close>\<close>

text \<open>
  \<open>os.walk(top)\<close> with its defaults, top-down: an error of \<open>scandir\<close> (no such directory,
  not a directory, not listable) ends that branch silently; \<open>dirs\<close> are the entries that
  are directories and \<open>nondirs\<close> all the others; every directory of \<open>dirs\<close> is walked under
  the path \<open>join(top, dirname)\<close>. The walk descends the tree instead of resolving that path
  again.
\<close>

fun walk_node :: "string \<Rightarrow> node \<Rightarrow> (string \<times> string list \<times> string list) list"
  and walk_entries :: "string \<Rightarrow> (string \<times> node) list \<Rightarrow> (string \<times> string list \<times> string list) list" where
  "walk_node tp (Directory readable entries) =
    (if readable then
       (tp, map fst (filter (\<lambda>e. is_dir (snd e)) entries),
             map fst (filter (\<lambda>e. \<not> is_dir (snd e)) entries))
       # walk_entries tp entries
     else [])"
| "walk_node tp (Regular _ _) = []"
| "walk_node tp Special = []"
| "walk_entries tp [] = []"
| "walk_entries tp ((name, child) # entries) =
    (if is_dir child then walk_node (join2 tp name) child else []) @ walk_entries tp entries"

text \<open>\<open>os.fspath(None)\<close> raises \<open>TypeError\<close> before anything is walked.\<close>

definition os_walk :: "world \<Rightarrow> string option \<Rightarrow> py_error + (string \<times> string list \<times> string list) list" where
  "os_walk w top_opt =
    (case top_opt of
       None \<Rightarrow> Inl PyTypeError
     | Some tp \<Rightarrow>
         (case stat w tp of None \<Rightarrow> Inr [] | Some (_, n) \<Rightarrow> Inr (walk_node tp n)))"

section \<open>The application (\<open>program.py\<close>)\<close>

datatype log_entry =
    ErrorNotSet
  | InfoUsing string
  | InfoFound nat "string option"
  | ErrorNoImages "string option"

text \<open>
  The module's start: \<open>IMAGE_DIR = os.getenv('IMAGE_DIR')\<close>, from the environment as
  \<open>load_dotenv\<close> left it, and the line logged about it. \<open>not IMAGE_DIR\<close> holds for \<open>None\<close>
  and for the empty string.
\<close>

definition IMAGE_DIR :: "(string \<rightharpoonup> string) \<Rightarrow> string option" where
  "IMAGE_DIR env = env ''IMAGE_DIR''"

definition startup_log :: "(string \<rightharpoonup> string) \<Rightarrow> log_entry list" where
  "startup_log env =
    (case IMAGE_DIR env of
       None \<Rightarrow> [ErrorNotSet]
     | Some d \<Rightarrow> if d = [] then [ErrorNotSet] else [InfoUsing d])"

definition allowed_extensions :: "string list" where
  "allowed_extensions = [''.jpg'', ''.jpeg'', ''.png'', ''.gif'', ''.bmp'', ''.webp'']"

definition is_image :: "string \<Rightarrow> bool" where
  "is_image f = list_ex (endswith (lower f)) allowed_extensions"

text \<open>
  \<open>list_image_files\<close>: the inner loop over \<open>files\<close>, the outer loop over the triples of the
  walk, and the function, which returns the list and what it logs.
\<close>

fun scan_files :: "string \<Rightarrow> string option \<Rightarrow> string \<Rightarrow> string list \<Rightarrow> string list \<Rightarrow> py_error + string list" where
  "scan_files cwd directory rt [] image_files = Inr image_files"
| "scan_files cwd directory rt (f # files) image_files =
    (if is_image f then
       (case relpath cwd (join2 rt f) directory of
          Inl e \<Rightarrow> Inl e
        | Inr rel_path \<Rightarrow> scan_files cwd directory rt files (image_files @ [rel_path]))
     else scan_files cwd directory rt files image_files)"

fun scan_walk :: "string \<Rightarrow> string option \<Rightarrow> (string \<times> string list \<times> string list) list \<Rightarrow> string list \<Rightarrow> py_error + string list" where
  "scan_walk cwd directory [] image_files = Inr image_files"
| "scan_walk cwd directory ((rt, _, files) # rest) image_files =
    (case scan_files cwd directory rt files image_files of
       Inl e \<Rightarrow> Inl e
     | Inr image_files' \<Rightarrow> scan_walk cwd directory rest image_files')"

definition list_image_files :: "world \<Rightarrow> string option \<Rightarrow> (py_error + string list) \<times> log_entry list" where
  "list_image_files w directory =
    (case os_walk w directory of
       Inl e \<Rightarrow> (Inl e, [])
     | Inr triples \<Rightarrow>
         (case scan_walk (getcwd w) directory triples [] of
            Inl e \<Rightarrow> (Inl e, [])
          | Inr image_files \<Rightarrow> (Inr image_files, [InfoFound (length image_files) directory])))"

subsection \<open>Random draws\<close>

text \<open>
  The generator is the sequence of its raw draws. \<open>_randbelow(n)\<close> reduces the next draw
  below \<open>n\<close>; \<open>randint(a, b)\<close> is \<open>a + _randbelow(b - a + 1)\<close>. \<open>random.sample\<close> draws \<open>k\<close>
  positions without replacement: it takes \<open>pool[j]\<close> for \<open>j\<close> below the number of entries
  left and moves the last entry left into the vacancy.
\<close>

type_synonym rng = "nat \<Rightarrow> nat"

definition randbelow :: "nat \<Rightarrow> rng \<Rightarrow> nat \<times> rng" where
  "randbelow n g = (g 0 mod n, \<lambda>i. g (Suc i))"

definition randint :: "int \<Rightarrow> int \<Rightarrow> rng \<Rightarrow> int \<times> rng" where
  "randint a b g = (case randbelow (nat (b - a + 1)) g of (j, g') \<Rightarrow> (a + int j, g'))"

fun sample_pool :: "'a list \<Rightarrow> nat \<Rightarrow> rng \<Rightarrow> 'a list" where
  "sample_pool pool 0 g = []"
| "sample_pool pool (Suc k) g =
    (if pool = [] then []
     else (case randbelow (length pool) g of
             (j, g') \<Rightarrow> pool ! j # sample_pool (butlast (pool[j := last pool])) k g'))"

definition sample :: "'a list \<Rightarrow> int \<Rightarrow> rng \<Rightarrow> py_error + 'a list" where
  "sample population k g =
    (if \<not> (0 \<le> k \<and> k \<le> int (length population)) then Inl ValueError
     else Inr (sample_pool population (nat k) g))"

subsection \<open>URLs\<close>

text \<open>
  \<open>url_for('get_image', filename=..., _external=True)\<close>: the host part of the request, the
  prefix of the route, and the file name quoted as the path converter does (every byte that
  is not a letter, a digit or one of the safe characters as \<open>%XX\<close>). \<open>url_unquote\<close> is the
  decoding the router applies to the path of a request.
\<close>

definition url_safe :: "char \<Rightarrow> bool" where
  "url_safe c =
    (let n = (of_char c :: nat) in
       (48 \<le> n \<and> n \<le> 57) \<or> (65 \<le> n \<and> n \<le> 90) \<or> (97 \<le> n \<and> n \<le> 122)
       \<or> c \<in> set ''_.-~!$&()*+,/:;=@'' \<or> n = 39)"

definition hexdigit :: "nat \<Rightarrow> char" where
  "hexdigit n = ''0123456789ABCDEF'' ! n"


definition quote_char :: "char \<Rightarrow> string" where
  "quote_char c =
    (if url_safe c then [c]
     else [CHR ''%'', hexdigit (of_char c div 16), hexdigit (of_char c mod 16)])"

definition url_quote :: "string \<Rightarrow> string" where
  "url_quote s = concat (map quote_char s)"


definition url_for :: "string \<Rightarrow> string \<Rightarrow> string" where
  "url_for host_url filename = host_url @ ''/images/'' @ url_quote filename"

subsection \<open>The endpoints\<close>

text \<open>
  A response; \<open>NotFound\<close> is the 404 of a raised \<open>NotFound\<close>. An exception that no handler
  takes (the left side of a result) is answered with status 500.
\<close>

datatype response = Json "string list" | SendFile string string | NotFound

definition http_status :: "py_error + response \<Rightarrow> nat" where
  "http_status r = (case r of Inl _ \<Rightarrow> 500 | Inr NotFound \<Rightarrow> 404 | Inr _ \<Rightarrow> 200)"

text \<open>Lines 44 to 48 of \<open>random_images\<close>: the draw of \<open>count\<close> and the selection.\<close>

definition select_images :: "string list \<Rightarrow> rng \<Rightarrow> py_error + string list" where
  "select_images images g =
    (case randint 1 5 g of
       (cnt, g') \<Rightarrow> if int (length images) \<ge> cnt then sample images cnt g' else Inr images)"

definition random_images :: "world \<Rightarrow> (string \<rightharpoonup> string) \<Rightarrow> string \<Rightarrow> rng \<Rightarrow> (py_error + response) \<times> log_entry list" where
  "random_images w env host_url g =
    (case list_image_files w (IMAGE_DIR env) of
       (Inl e, logged) \<Rightarrow> (Inl e, logged)
     | (Inr images, logged) \<Rightarrow>
         if images = [] then (Inr (Json []), logged @ [ErrorNoImages (IMAGE_DIR env)])
         else
           (case select_images images g of
              Inl e \<Rightarrow> (Inl e, logged)
            | Inr selected \<Rightarrow> (Inr (Json (map (url_for host_url) selected)), logged)))"






section \<open>What the properties are stated with\<close>

text \<open>
  The entry that a list of names leads to when every directory on the way can be listed:
  these are the entries a walk can come to.
\<close>

fun visible :: "node \<Rightarrow> string list \<Rightarrow> node option" where
  "visible n [] = Some n"
| "visible (Directory readable entries) (c # cs) =
    (if readable then (case map_of entries c of None \<Rightarrow> None | Some m \<Rightarrow> visible m cs)
     else None)"
| "visible _ (c # cs) = None"

text \<open>
  The scan on the tree alone, in the order of the walk: the lists of names, from the scanned
  directory down, of the entries that are not directories and have an image's name.
\<close>

fun image_paths :: "node \<Rightarrow> string list list"
  and image_paths_entries :: "(string \<times> node) list \<Rightarrow> string list list" where
  "image_paths (Directory readable entries) =
    (if readable then
       map (\<lambda>f. [f]) (filter is_image (map fst (filter (\<lambda>e. \<not> is_dir (snd e)) entries)))
       @ image_paths_entries entries
     else [])"
| "image_paths (Regular _ _) = []"
| "image_paths Special = []"
| "image_paths_entries [] = []"
| "image_paths_entries ((name, child) # entries) =
    (if is_dir child then map (\<lambda>p. name # p) (image_paths child) else [])
    @ image_paths_entries entries"

text \<open>
  An image's entry below a node: a non-empty list of names that leads, through directories
  that can be listed, to an entry that is not a directory, the last name being an image's.
\<close>

definition img_at :: "node \<Rightarrow> string list \<Rightarrow> bool" where
  "img_at n p = (p \<noteq> [] \<and> is_image (last p) \<and> (\<exists>m. visible n p = Some m \<and> \<not> is_dir m))"

text \<open>The path that \<open>abspath\<close> normalises.\<close>

definition absq :: "string \<Rightarrow> string \<Rightarrow> string" where
  "absq cwd p = (if isabs p then p else join2 cwd p)"

text \<open>
  A world as a process finds it: a well-formed tree under a root directory, and absolute
  paths for the working directory and for the application's root path.
\<close>

definition wf_world :: "world \<Rightarrow> bool" where
  "wf_world w =
    (is_dir (fs_root w) \<and> wf_node (fs_root w) \<and> isabs (getcwd w) \<and> isabs (root_path w))"

text \<open>A world to try the definitions on.\<close>

definition demo_world :: world where
  "demo_world =
    \<lparr>fs_root = Directory True
       [(''srv'', Directory True
          [(''pics'', Directory True
             [(''a.png'', Regular True ''A''),
              (''B.JPG'', Regular True ''B''),
              (''notes.txt'', Regular True ''t''),
              (''pipe.png'', Special),
              (''sub'', Directory True [(''c.gif'', Regular False ''C'')]),
              (''locked'', Directory False [(''d.png'', Regular True ''D'')]),
              (''empty'', Directory True [])]),
           (''album'', Directory True
             [(''x.png'', Regular True ''X''),
              (''y.PNG'', Regular True ''Y''),
              (''z.png'', Regular True ''Z'')]),
           (''secret.png'', Regular True ''S'')]),
        (''etc'', Directory True [(''passwd'', Regular True ''root'')])],
     getcwd = ''/srv'', root_path = ''/srv''\<rparr>"

text \<open>
  The directory \<open>send_from_directory\<close> serves from (the configured directory, taken under
  the application's root path), and the path the kernel resolves for a path of the
  process.
\<close>

definition served_root :: "world \<Rightarrow> string \<Rightarrow> string" where
  "served_root w d = join2 (root_path w) (if d = [] then ''.'' else d)"


text \<open>
  A requested path escapes the served directory when the kernel resolves it, taken as it
  is under that directory, to a location that does not lie below the directory's.
\<close>

definition escapes :: "world \<Rightarrow> string \<Rightarrow> string \<Rightarrow> bool" where
  "escapes w d filename =
    (case stat w (served_root w d) of
       None \<Rightarrow> False
     | Some (rootloc, _) \<Rightarrow>
         (case stat w (served_root w d @ ''/'' @ filename) of
            None \<Rightarrow> False
          | Some (fileloc, _) \<Rightarrow> \<not> prefix rootloc fileloc))"


section \<open>Properties\<close>

subsection \<open>Sampling\<close>







lemma randint_range: "a \<le> b \<Longrightarrow> a \<le> fst (randint a b g) \<and> fst (randint a b g) \<le> b"
proof -
  assume ab: "a \<le> b"
  then have pos: "0 < nat (b - a + 1)" by simp
  have "g 0 mod nat (b - a + 1) < nat (b - a + 1)" using pos by simp
  then have "int (g 0 mod nat (b - a + 1)) < b - a + 1" using ab by linarith
  then show ?thesis by (simp add: randint_def randbelow_def)
qed

subsection \<open>Splitting and joining paths\<close>

lemma split_sep_ne: "split_sep s \<noteq> []"
  by (induction s) (auto split: list.splits)

lemma split_sep_noslash: "CHR ''/'' \<notin> set s \<Longrightarrow> split_sep s = [s]"
  by (induction s) auto

lemma split_sep_append: "split_sep (a @ CHR ''/'' # b) = split_sep a @ split_sep b"
proof (induction a)
  case Nil
  then show ?case by simp
next
  case (Cons c a)
  obtain x xs where x: "split_sep a = x # xs" using split_sep_ne [of a] by (cases "split_sep a") auto
  show ?case using Cons x by simp
qed

lemma split_sep_slashfree: "c \<in> set (split_sep s) \<Longrightarrow> CHR ''/'' \<notin> set c"
proof (induction s arbitrary: c)
  case Nil
  then show ?case by simp
next
  case (Cons a s)
  obtain x xs where x: "split_sep s = x # xs" using split_sep_ne [of s] by (cases "split_sep s") auto
  show ?case
  proof (cases "a = CHR ''/''")
    case True
    then show ?thesis using Cons by auto
  next
    case False
    then have "c = a # x \<or> c \<in> set xs" using Cons.prems x by simp
    then show ?thesis using Cons.IH x False by auto
  qed
qed

lemma split_join:
  "names \<noteq> [] \<Longrightarrow> \<forall>x\<in>set names. CHR ''/'' \<notin> set x \<Longrightarrow> split_sep (join_sep names) = names"
proof (induction names rule: join_sep.induct)
  case 1
  then show ?case by simp
next
  case (2 x)
  then show ?case by (simp add: split_sep_noslash)
next
  case (3 x y ys)
  then show ?case by (simp add: split_sep_append split_sep_noslash)
qed

lemma join_sep_inj:
  assumes "join_sep xs = join_sep ys" and "xs \<noteq> []" and "ys \<noteq> []"
    and "\<forall>x\<in>set xs. CHR ''/'' \<notin> set x" and "\<forall>x\<in>set ys. CHR ''/'' \<notin> set x"
  shows "xs = ys"
  using assms by (metis split_join)

lemma norm_comps_append:
  "norm_comps i acc (xs @ ys) = norm_comps i (norm_comps i acc xs) ys"
  by (induction xs arbitrary: acc) auto

lemma norm_comps_abs: "0 < i \<Longrightarrow> 0 < j \<Longrightarrow> norm_comps i acc cs = norm_comps j acc cs"
  by (induction cs arbitrary: acc) auto

lemma norm_comps_name: "valid_name f \<Longrightarrow> norm_comps i acc [f] = acc @ [f]"
  by (simp add: valid_name_def)

lemma norm_comps_empty: "norm_comps i acc [[]] = acc"
  by simp

lemma norm_comps_good:
  "\<forall>c\<in>set acc. c \<noteq> [] \<and> CHR ''/'' \<notin> set c \<Longrightarrow> \<forall>c\<in>set cs. CHR ''/'' \<notin> set c \<Longrightarrow>
   \<forall>c\<in>set (norm_comps i acc cs). c \<noteq> [] \<and> CHR ''/'' \<notin> set c"
proof (induction cs arbitrary: acc)
  case Nil
  then show ?case by simp
next
  case (Cons c cs)
  have b: "\<forall>c\<in>set (butlast acc). c \<noteq> [] \<and> CHR ''/'' \<notin> set c"
    using Cons.prems(1) by (meson in_set_butlastD)
  have a: "c \<noteq> [] \<Longrightarrow> \<forall>x\<in>set (acc @ [c]). x \<noteq> [] \<and> CHR ''/'' \<notin> set x"
    using Cons.prems by auto
  have r: "\<forall>c\<in>set cs. CHR ''/'' \<notin> set c" using Cons.prems(2) by simp
  show ?case
    using Cons.IH [OF Cons.prems(1) r] Cons.IH [OF b r] Cons.IH [OF a r]
    by (simp del: set_append)
qed

lemma endswith_slash: "endswith q ''/'' \<longleftrightarrow> q \<noteq> [] \<and> last q = CHR ''/''"
proof (cases "q = []")
  case True
  then show ?thesis by (simp add: endswith_def)
next
  case False
  then have "q = butlast q @ [last q]" by simp
  then have "drop (length q - 1) q = [last q]"
    by (metis False append_butlast_last_id append_eq_conv_conj length_butlast)
  then show ?thesis using False by (auto simp: endswith_def Suc_leI)
qed

lemma startswith_slash: "startswith q ''/'' \<longleftrightarrow> q \<noteq> [] \<and> hd q = CHR ''/''"
  by (cases q) (auto simp: startswith_def)

lemma valid_name_noslash: "valid_name f \<Longrightarrow> CHR ''/'' \<notin> set f \<and> f \<noteq> []"
  by (simp add: valid_name_def)

lemma valid_name_last: "valid_name f \<Longrightarrow> last f \<noteq> CHR ''/''"
  by (metis last_in_set valid_name_def)

lemma valid_name_rel: "valid_name f \<Longrightarrow> \<not> startswith f ''/''"
  by (cases f) (auto simp: startswith_slash valid_name_def)

lemma join2_name:
  "valid_name f \<Longrightarrow> join2 q f = (if q = [] \<or> last q = CHR ''/'' then q @ f else q @ ''/'' @ f)"
  by (auto simp: join2_def valid_name_rel endswith_slash)

lemma join2_name_ne: "valid_name f \<Longrightarrow> join2 q f \<noteq> []"
  by (auto simp: join2_name valid_name_def)

lemma join2_name_last: "valid_name f \<Longrightarrow> last (join2 q f) = last f"
  by (auto simp: join2_name valid_name_def)

lemma join2_name_hd: "valid_name f \<Longrightarrow> q \<noteq> [] \<Longrightarrow> hd (join2 q f) = hd q"
  by (auto simp: join2_name)

lemma norm_split_join2:
  assumes "q \<noteq> []" and "valid_name f"
  shows "norm_comps i acc (split_sep (join2 q f)) = norm_comps i acc (split_sep q) @ [f]"
proof (cases "last q = CHR ''/''")
  case True
  then have q: "q = butlast q @ CHR ''/'' # []" using assms(1) by (metis append_butlast_last_id)
  have "join2 q f = butlast q @ CHR ''/'' # f"
    using True assms by (metis join2_name q append.assoc append_Cons append_Nil)
  then have "split_sep (join2 q f) = split_sep (butlast q) @ [f]"
    using assms(2) by (simp add: split_sep_append split_sep_noslash valid_name_noslash)
  moreover have "split_sep q = split_sep (butlast q) @ [[]]"
    using q by (metis split_sep_append split_sep.simps(1))
  ultimately show ?thesis
    using assms(2) by (simp add: norm_comps_append norm_comps_name norm_comps_empty del: norm_comps.simps)
next
  case False
  then have "join2 q f = q @ CHR ''/'' # f" using assms by (simp add: join2_name)
  then have "split_sep (join2 q f) = split_sep q @ [f]"
    using assms(2) by (simp add: split_sep_append split_sep_noslash valid_name_noslash)
  then show ?thesis
    using assms(2) by (simp add: norm_comps_append norm_comps_name del: norm_comps.simps)
qed


lemma isabs_join2_name: "valid_name f \<Longrightarrow> p \<noteq> [] \<Longrightarrow> isabs (join2 p f) = isabs p"
  by (simp add: isabs_def startswith_slash join2_name_ne join2_name_hd)

lemma join2_rel: "\<not> startswith b ''/'' \<Longrightarrow>
  join2 a b = (if a = [] \<or> last a = CHR ''/'' then a @ b else a @ ''/'' @ b)"
  by (auto simp: join2_def endswith_slash)

lemma join2_assoc:
  assumes "valid_name f" and "p \<noteq> []" and "\<not> startswith p ''/''"
  shows "join2 cwd (join2 p f) = join2 (join2 cwd p) f"
proof -
  define s where "s = (if last p = CHR ''/'' then f else ''/'' @ f)"
  have r: "\<not> startswith (join2 p f) ''/''"
    using assms by (simp add: startswith_slash join2_name_ne join2_name_hd)
  have x: "join2 p f = p @ s" using assms by (simp add: join2_name s_def)
  have a: "join2 cwd (join2 p f)
           = (if cwd = [] \<or> last cwd = CHR ''/'' then cwd @ join2 p f else cwd @ ''/'' @ join2 p f)"
    by (rule join2_rel [OF r])
  have b: "join2 cwd p = (if cwd = [] \<or> last cwd = CHR ''/'' then cwd @ p else cwd @ ''/'' @ p)"
    by (rule join2_rel [OF assms(3)])
  then have l: "join2 cwd p \<noteq> [] \<and> last (join2 cwd p) = last p"
    using assms(2) by auto
  have c: "join2 (join2 cwd p) f = join2 cwd p @ s"
    using l assms(1) by (simp add: join2_name s_def)
  have "join2 cwd (join2 p f)
        = (if cwd = [] \<or> last cwd = CHR ''/'' then cwd @ p @ s else cwd @ ''/'' @ p @ s)"
    using a x by simp
  moreover have "join2 (join2 cwd p) f
        = (if cwd = [] \<or> last cwd = CHR ''/'' then cwd @ p @ s else cwd @ ''/'' @ p @ s)"
    using c b by simp
  ultimately show ?thesis by simp
qed

lemma absq_join2: "valid_name f \<Longrightarrow> p \<noteq> [] \<Longrightarrow> absq cwd (join2 p f) = join2 (absq cwd p) f"
proof -
  assume v: "valid_name f" and ne: "p \<noteq> []"
  have i: "isabs (join2 p f) = isabs p" using v ne by (rule isabs_join2_name)
  show ?thesis
  proof (cases "isabs p")
    case True
    then show ?thesis using i by (simp add: absq_def)
  next
    case False
    then have "\<not> startswith p ''/''" by (simp add: isabs_def)
    then have "join2 cwd (join2 p f) = join2 (join2 cwd p) f" using v ne by (simp add: join2_assoc)
    then show ?thesis using False i by (simp add: absq_def)
  qed
qed

lemma absq_ne: "p \<noteq> [] \<Longrightarrow> absq cwd p \<noteq> []"
  by (auto simp: absq_def join2_def)

lemma abs_comps_foldl:
  "d \<noteq> [] \<Longrightarrow> \<forall>x\<in>set names. valid_name x \<Longrightarrow>
   norm_comps i [] (split_sep (absq cwd (foldl join2 d names)))
     = norm_comps i [] (split_sep (absq cwd d)) @ names"
proof (induction names arbitrary: d)
  case Nil
  then show ?case by simp
next
  case (Cons n names)
  have v: "valid_name n" using Cons.prems by simp
  have ne: "join2 d n \<noteq> []" using v by (rule join2_name_ne)
  have "norm_comps i [] (split_sep (absq cwd (foldl join2 (join2 d n) names)))
        = norm_comps i [] (split_sep (absq cwd (join2 d n))) @ names"
    using Cons.IH [OF ne] Cons.prems by simp
  also have "absq cwd (join2 d n) = join2 (absq cwd d) n"
    using v Cons.prems(1) by (rule absq_join2)
  also have "norm_comps i [] (split_sep (join2 (absq cwd d) n))
             = norm_comps i [] (split_sep (absq cwd d)) @ [n]"
    using absq_ne [OF Cons.prems(1)] v by (rule norm_split_join2)
  finally show ?case by simp
qed

lemma foldl_join2_ne: "d \<noteq> [] \<Longrightarrow> \<forall>x\<in>set names. valid_name x \<Longrightarrow> foldl join2 d names \<noteq> []"
  by (induction names arbitrary: d) (auto simp: join2_name_ne)

lemma isabs_absq: "isabs cwd \<Longrightarrow> isabs (absq cwd p)"
  by (auto simp: absq_def isabs_def join2_def startswith_slash)

lemma initial_slashes_abs: "isabs q \<Longrightarrow> initial_slashes_of q = 1 \<or> initial_slashes_of q = 2"
  by (simp add: initial_slashes_of_def isabs_def)

lemma filter_split_join:
  assumes "\<forall>c\<in>set cs. c \<noteq> [] \<and> CHR ''/'' \<notin> set c"
  shows "filter (\<lambda>x. x \<noteq> []) (split_sep (join_sep cs)) = cs"
proof (cases "cs = []")
  case True
  then show ?thesis by simp
next
  case False
  then have "split_sep (join_sep cs) = cs" using assms by (simp add: split_join)
  then show ?thesis using assms by (simp add: filter_id_conv)
qed

lemma comps_abspath:
  assumes "isabs cwd"
  shows "filter (\<lambda>x. x \<noteq> []) (split_sep (abspath cwd p))
         = norm_comps 1 [] (split_sep (absq cwd p))"
proof -
  define q where "q = absq cwd p"
  have abs: "isabs q" unfolding q_def using assms by (rule isabs_absq)
  then have ne: "q \<noteq> []" by (auto simp: isabs_def startswith_def)
  define i where "i = initial_slashes_of q"
  have i: "i = 1 \<or> i = 2" unfolding i_def using abs by (rule initial_slashes_abs)
  define cs where "cs = norm_comps i [] (split_sep q)"
  have good: "\<forall>c\<in>set cs. c \<noteq> [] \<and> CHR ''/'' \<notin> set c"
    unfolding cs_def by (rule norm_comps_good) (auto dest: split_sep_slashfree)
  have cs1: "cs = norm_comps 1 [] (split_sep q)"
    unfolding cs_def using i norm_comps_abs [of i 1] by auto
  have np: "normpath q = replicate i CHR ''/'' @ join_sep cs"
    using ne i by (auto simp: normpath_def Let_def i_def [symmetric] cs_def [symmetric])
  have "filter (\<lambda>x. x \<noteq> []) (split_sep (replicate i CHR ''/'' @ join_sep cs)) = cs"
    using i filter_split_join [OF good] by (auto simp: numeral_2_eq_2)
  then show ?thesis
    using np cs1 by (simp add: abspath_def q_def absq_def)
qed

lemma commonprefix_append: "commonprefix s (s @ t) = s"
  by (induction s) auto

lemma foldl_join2_names:
  "acc \<noteq> [] \<Longrightarrow> last acc \<noteq> CHR ''/'' \<Longrightarrow> \<forall>x\<in>set ps. valid_name x \<Longrightarrow>
   foldl join2 acc ps = acc @ concat (map (\<lambda>p. CHR ''/'' # p) ps)"
proof (induction ps arbitrary: acc)
  case Nil
  then show ?case by simp
next
  case (Cons p ps)
  have v: "valid_name p" using Cons.prems by simp
  have j: "join2 acc p = acc @ CHR ''/'' # p" using v Cons.prems by (simp add: join2_name)
  have "last (acc @ CHR ''/'' # p) \<noteq> CHR ''/''"
    using v valid_name_last [OF v] by (auto simp: valid_name_def)
  then show ?case using Cons.IH [of "acc @ CHR ''/'' # p"] Cons.prems j by simp
qed

lemma join_sep_concat: "join_sep (a # ps) = a @ concat (map (\<lambda>p. CHR ''/'' # p) ps)"
  by (induction ps arbitrary: a) auto

lemma join_all_names:
  assumes "\<forall>x\<in>set names. valid_name x"
  shows "join_all names = join_sep names"
proof (cases names)
  case Nil
  then show ?thesis by (simp add: join_all_def)
next
  case (Cons a ps)
  then have "valid_name a" using assms by simp
  then have "a \<noteq> []" "last a \<noteq> CHR ''/''" by (auto simp: valid_name_def valid_name_last)
  then show ?thesis using assms Cons by (simp add: join_all_def foldl_join2_names join_sep_concat)
qed

lemma relpath_below:
  assumes "isabs cwd" and "d \<noteq> []" and "names \<noteq> []" and "\<forall>x\<in>set names. valid_name x"
  shows "relpath cwd (foldl join2 d names) (Some d) = Inr (join_sep names)"
proof -
  define s where "s = norm_comps 1 [] (split_sep (absq cwd d))"
  have st: "filter (\<lambda>x. x \<noteq> []) (split_sep (abspath cwd d)) = s"
    unfolding s_def using assms(1) by (rule comps_abspath)
  have pt: "filter (\<lambda>x. x \<noteq> []) (split_sep (abspath cwd (foldl join2 d names))) = s @ names"
    unfolding s_def using comps_abspath [OF assms(1)] abs_comps_foldl [OF assms(2) assms(4)] by simp
  have ne: "foldl join2 d names \<noteq> []" using assms(2) assms(4) by (rule foldl_join2_ne)
  show ?thesis
    using ne assms(3) by (simp add: relpath_def st pt commonprefix_append join_all_names [OF assms(4)])
qed

subsection \<open>The walk and the scan\<close>

lemma foldl_join2_snoc: "join2 (foldl join2 d pre) f = foldl join2 d (pre @ [f])"
  by simp

lemma scan_files_eq:
  assumes "isabs cwd" and "d \<noteq> []" and "\<forall>x\<in>set pre. valid_name x"
  shows "\<forall>f\<in>set files. valid_name f \<Longrightarrow>
    scan_files cwd (Some d) (foldl join2 d pre) files acc
      = Inr (acc @ map (\<lambda>f. join_sep (pre @ [f])) (filter is_image files))"
proof (induction files arbitrary: acc)
  case Nil
  then show ?case by simp
next
  case (Cons f files)
  have v: "\<forall>x\<in>set (pre @ [f]). valid_name x" using assms(3) Cons.prems by simp
  have r: "relpath cwd (join2 (foldl join2 d pre) f) (Some d) = Inr (join_sep (pre @ [f]))"
    unfolding foldl_join2_snoc using assms(1,2) _ v by (rule relpath_below) simp
  show ?case using Cons r by simp
qed

lemma scan_walk_append:
  "scan_walk cwd dir (xs @ ys) acc
   = (case scan_walk cwd dir xs acc of Inl e \<Rightarrow> Inl e | Inr acc' \<Rightarrow> scan_walk cwd dir ys acc')"
  by (induction xs arbitrary: acc) (auto split: sum.splits)

lemma wf_entries_iff:
  "wf_entries es \<longleftrightarrow> distinct (map fst es) \<and> (\<forall>(n, c)\<in>set es. valid_name n \<and> wf_node c)"
  by (induction es) force+

lemma scan_walk_tree:
  assumes "isabs cwd" and "d \<noteq> []"
  shows "wf_node n \<longrightarrow> (\<forall>pre acc. tp = foldl join2 d pre \<longrightarrow> (\<forall>x\<in>set pre. valid_name x) \<longrightarrow>
           scan_walk cwd (Some d) (walk_node tp n) acc
             = Inr (acc @ map (\<lambda>p. join_sep (pre @ p)) (image_paths n)))"
    and "wf_entries es \<longrightarrow> (\<forall>pre acc. tp' = foldl join2 d pre \<longrightarrow> (\<forall>x\<in>set pre. valid_name x) \<longrightarrow>
           scan_walk cwd (Some d) (walk_entries tp' es) acc
             = Inr (acc @ map (\<lambda>p. join_sep (pre @ p)) (image_paths_entries es)))"
proof (induction tp n and tp' es rule: walk_node_walk_entries.induct)
  case (1 tp readable entries)
  show ?case
  proof (intro impI allI)
    fix pre acc
    assume wf: "wf_node (Directory readable entries)" and tp: "tp = foldl join2 d pre"
      and pre: "\<forall>x\<in>set pre. valid_name x"
    show "scan_walk cwd (Some d) (walk_node tp (Directory readable entries)) acc
          = Inr (acc @ map (\<lambda>p. join_sep (pre @ p)) (image_paths (Directory readable entries)))"
    proof (cases readable)
      case False
      then show ?thesis by simp
    next
      case True
      have names: "\<forall>f\<in>set (map fst (filter (\<lambda>e. \<not> is_dir (snd e)) entries)). valid_name f"
        using wf by (auto simp: wf_entries_iff)
      have f: "scan_files cwd (Some d) tp (map fst (filter (\<lambda>e. \<not> is_dir (snd e)) entries)) acc
          = Inr (acc @ map (\<lambda>f. join_sep (pre @ [f]))
                  (filter is_image (map fst (filter (\<lambda>e. \<not> is_dir (snd e)) entries))))"
        unfolding tp using assms pre names by (rule scan_files_eq)
      have e: "\<And>acc. scan_walk cwd (Some d) (walk_entries tp entries) acc
             = Inr (acc @ map (\<lambda>p. join_sep (pre @ p)) (image_paths_entries entries))"
        using 1 True wf tp pre by simp
      show ?thesis using True f e by (simp add: comp_def)
    qed
  qed
next
  case (2 tp uu uv)
  then show ?case by simp
next
  case (3 tp)
  then show ?case by simp
next
  case (4 tp)
  then show ?case by simp
next
  case (5 tp name child entries)
  show ?case
  proof (intro impI allI)
    fix pre acc
    assume wf: "wf_entries ((name, child) # entries)" and tp: "tp = foldl join2 d pre"
      and pre: "\<forall>x\<in>set pre. valid_name x"
    have pre': "\<forall>x\<in>set (pre @ [name]). valid_name x" using pre wf by simp
    have tp': "join2 tp name = foldl join2 d (pre @ [name])" using tp by simp
    have r: "\<And>acc. scan_walk cwd (Some d) (walk_entries tp entries) acc
             = Inr (acc @ map (\<lambda>p. join_sep (pre @ p)) (image_paths_entries entries))"
      using 5(2) wf tp pre by simp
    show "scan_walk cwd (Some d) (walk_entries tp ((name, child) # entries)) acc
          = Inr (acc @ map (\<lambda>p. join_sep (pre @ p)) (image_paths_entries ((name, child) # entries)))"
    proof (cases "is_dir child")
      case True
      have c: "\<And>acc. scan_walk cwd (Some d) (walk_node (join2 tp name) child) acc
             = Inr (acc @ map (\<lambda>p. join_sep ((pre @ [name]) @ p)) (image_paths child))"
      proof -
        fix acc
        have "wf_node child" using wf by simp
        with 5(1) [OF True] tp' pre'
        show "scan_walk cwd (Some d) (walk_node (join2 tp name) child) acc
             = Inr (acc @ map (\<lambda>p. join_sep ((pre @ [name]) @ p)) (image_paths child))"
          by blast
      qed
      show ?thesis using True c r by (simp add: scan_walk_append comp_def)
    next
      case False
      then show ?thesis using r by simp
    qed
  qed
qed

lemma map_of_wf:
  "wf_entries es \<Longrightarrow> map_of es c = Some m \<longleftrightarrow> (c, m) \<in> set es"
  by (simp add: wf_entries_iff)

lemma wf_node_at: "wf_node n \<Longrightarrow> node_at n loc = Some m \<Longrightarrow> wf_node m"
proof (induction n loc rule: node_at.induct)
  case (2 uu entries c cs)
  then show ?case
    by (auto split: option.splits simp: wf_entries_iff dest!: map_of_SomeD)
qed simp_all

lemma stat_ne: "stat w d = Some x \<Longrightarrow> d \<noteq> []"
  by (auto simp: stat_def)

lemma stat_node: "stat w d = Some (loc, n) \<Longrightarrow> node_at (fs_root w) loc = Some n"
  by (auto simp: stat_def split: if_splits option.splits)

lemma list_image_files_tree:
  assumes "wf_world w" and "stat w d = Some (loc, n)"
  shows "list_image_files w (Some d)
         = (Inr (map join_sep (image_paths n)), [InfoFound (length (image_paths n)) (Some d)])"
proof -
  have ne: "d \<noteq> []" using assms(2) by (rule stat_ne)
  have abs: "isabs (getcwd w)" using assms(1) by (simp add: wf_world_def)
  have "wf_node n" using assms by (auto simp: wf_world_def dest: stat_node wf_node_at)
  then have "scan_walk (getcwd w) (Some d) (walk_node d n) []
             = Inr ([] @ map (\<lambda>p. join_sep ([] @ p)) (image_paths n))"
    using scan_walk_tree(1) [OF abs ne, of n d] by (metis empty_iff foldl_Nil list.set(1))
  then show ?thesis using assms(2) by (simp add: list_image_files_def os_walk_def)
qed

lemma visible_nondir: "\<not> is_dir c \<Longrightarrow> q \<noteq> [] \<Longrightarrow> visible c q = None"
  by (cases c; cases q) auto


lemma img_at_dir:
  assumes "wf_entries es"
  shows "img_at (Directory True es) p \<longleftrightarrow>
    (\<exists>f c. p = [f] \<and> (f, c) \<in> set es \<and> \<not> is_dir c \<and> is_image f)
    \<or> (\<exists>name c q. p = name # q \<and> (name, c) \<in> set es \<and> is_dir c \<and> img_at c q)"
proof (cases p)
  case Nil
  then show ?thesis by (simp add: img_at_def)
next
  case (Cons x q)
  show ?thesis
  proof (cases "map_of es x")
    case None
    then have "\<And>c. (x, c) \<notin> set es" using assms by (metis map_of_wf option.distinct(1))
    then show ?thesis using Cons None by (simp add: img_at_def)
  next
    case (Some c)
    then have mem: "(x, c) \<in> set es" using assms by (simp add: map_of_wf)
    have uniq: "\<And>c'. (x, c') \<in> set es \<Longrightarrow> c' = c"
      using assms Some by (metis map_of_wf option.inject)
    show ?thesis
    proof (cases "q = []")
      case True
      have "img_at (Directory True es) p \<longleftrightarrow> is_image x \<and> \<not> is_dir c"
        using Cons True Some by (simp add: img_at_def)
      moreover have "(\<exists>f c'. p = [f] \<and> (f, c') \<in> set es \<and> \<not> is_dir c' \<and> is_image f)
          \<longleftrightarrow> is_image x \<and> \<not> is_dir c"
        unfolding Cons True using mem uniq by blast
      moreover have "\<not> (\<exists>name c' q'. p = name # q' \<and> (name, c') \<in> set es \<and> is_dir c' \<and> img_at c' q')"
        unfolding Cons True by (simp add: img_at_def)
      ultimately show ?thesis by blast
    next
      case False
      have "img_at (Directory True es) p \<longleftrightarrow> img_at c q"
        using Cons False Some by (simp add: img_at_def)
      moreover have nd: "\<not> is_dir c \<Longrightarrow> \<not> img_at c q"
        using False by (simp add: img_at_def visible_nondir)
      moreover have "\<not> (\<exists>f c'. p = [f] \<and> (f, c') \<in> set es \<and> \<not> is_dir c' \<and> is_image f)"
        unfolding Cons using False by simp
      moreover have "(\<exists>name c' q'. p = name # q' \<and> (name, c') \<in> set es \<and> is_dir c' \<and> img_at c' q')
          \<longleftrightarrow> is_dir c \<and> img_at c q"
        unfolding Cons using mem uniq by blast
      ultimately show ?thesis by blast
    qed
  qed
qed

lemma img_at_unreadable: "\<not> img_at (Directory False es) p"
  by (cases p) (auto simp: img_at_def)

lemma img_at_file: "\<not> is_dir n \<Longrightarrow> \<not> img_at n p"
  by (cases p) (auto simp: img_at_def visible_nondir)

lemma image_paths_props:
  "wf_node n \<longrightarrow> distinct (image_paths n) \<and> (\<forall>p. p \<in> set (image_paths n) \<longleftrightarrow> img_at n p)"
  "wf_entries es \<longrightarrow> distinct (image_paths_entries es) \<and>
     (\<forall>p. p \<in> set (image_paths_entries es) \<longleftrightarrow>
        (\<exists>name c q. p = name # q \<and> (name, c) \<in> set es \<and> is_dir c \<and> img_at c q))"
proof (induction n and es rule: image_paths_image_paths_entries.induct)
  case (1 readable entries)
  show ?case
  proof (cases readable)
    case False
    then show ?thesis by (simp add: img_at_unreadable)
  next
    case True
    show ?thesis
    proof (intro impI)
      assume "wf_node (Directory readable entries)"
      then have wf: "wf_entries entries" by simp
      define F where "F = map (\<lambda>f. [f]) (filter is_image (map fst (filter (\<lambda>e. \<not> is_dir (snd e)) entries)))"
      have ih: "distinct (image_paths_entries entries)"
        "\<And>p. p \<in> set (image_paths_entries entries) \<longleftrightarrow>
          (\<exists>name c q. p = name # q \<and> (name, c) \<in> set entries \<and> is_dir c \<and> img_at c q)"
        using 1 True wf by auto
      have "distinct (map fst entries)" using wf by (simp add: wf_entries_iff)
      then have "distinct (map fst (filter (\<lambda>e. \<not> is_dir (snd e)) entries))"
        by (rule distinct_map_filter)
      then have "distinct (filter is_image (map fst (filter (\<lambda>e. \<not> is_dir (snd e)) entries)))"
        by (rule distinct_filter)
      then have dF: "distinct F" unfolding F_def
        by (rule iffD2 [OF distinct_map, OF conjI]) (simp add: inj_on_def)
      have mF: "\<And>p. p \<in> set F \<longleftrightarrow> (\<exists>f c. p = [f] \<and> (f, c) \<in> set entries \<and> \<not> is_dir c \<and> is_image f)"
        unfolding F_def by force
      have disj: "set F \<inter> set (image_paths_entries entries) = {}"
      proof -
        have "\<And>p. p \<in> set (image_paths_entries entries) \<Longrightarrow> length p \<noteq> 1"
          unfolding ih(2) by (auto simp: img_at_def)
        moreover have "\<And>p. p \<in> set F \<Longrightarrow> length p = 1" unfolding F_def by auto
        ultimately show ?thesis by blast
      qed
      have ip: "image_paths (Directory readable entries) = F @ image_paths_entries entries"
        using True by (simp add: F_def)
      show "distinct (image_paths (Directory readable entries)) \<and>
            (\<forall>p. p \<in> set (image_paths (Directory readable entries)) \<longleftrightarrow> img_at (Directory readable entries) p)"
      proof
        show "distinct (image_paths (Directory readable entries))"
          unfolding ip using dF ih(1) disj by simp
        show "\<forall>p. p \<in> set (image_paths (Directory readable entries)) \<longleftrightarrow> img_at (Directory readable entries) p"
          unfolding ip using True by (simp add: mF ih(2) img_at_dir [OF wf])
      qed
    qed
  qed
next
  case (2 uu uv)
  then show ?case by (simp add: img_at_file)
next
  case 3
  then show ?case by (simp add: img_at_file)
next
  case 4
  then show ?case by simp
next
  case (5 name child entries)
  show ?case
  proof (intro impI)
    assume wf: "wf_entries ((name, child) # entries)"
    then have wfe: "wf_entries entries" and wfc: "wf_node child"
      and fresh: "name \<notin> fst ` set entries" by auto
    define C where "C = (if is_dir child then map (\<lambda>p. name # p) (image_paths child) else [])"
    have ihe: "distinct (image_paths_entries entries)"
      "\<And>p. p \<in> set (image_paths_entries entries) \<longleftrightarrow>
          (\<exists>name c q. p = name # q \<and> (name, c) \<in> set entries \<and> is_dir c \<and> img_at c q)"
      using 5(2) wfe by auto
    have dC: "distinct C" using 5(1) wfc by (auto simp: C_def distinct_map inj_on_def)
    have mC: "\<And>p. p \<in> set C \<longleftrightarrow> (\<exists>q. p = name # q \<and> is_dir child \<and> img_at child q)"
      using 5(1) wfc by (auto simp: C_def)
    have disj: "set C \<inter> set (image_paths_entries entries) = {}"
    proof -
      have "\<And>p. p \<in> set C \<Longrightarrow> p \<in> set (image_paths_entries entries) \<Longrightarrow> False"
      proof -
        fix p
        assume "p \<in> set C" and "p \<in> set (image_paths_entries entries)"
        then obtain q name' c q' where "p = name # q" and "p = name' # q'" and "(name', c) \<in> set entries"
          using mC ihe(2) by blast
        then have "name \<in> fst ` set entries" by force
        then show False using fresh by simp
      qed
      then show ?thesis by blast
    qed
    have ip: "image_paths_entries ((name, child) # entries) = C @ image_paths_entries entries"
      by (simp add: C_def)
    show "distinct (image_paths_entries ((name, child) # entries)) \<and>
     (\<forall>p. p \<in> set (image_paths_entries ((name, child) # entries)) \<longleftrightarrow>
        (\<exists>name' c q. p = name' # q \<and> (name', c) \<in> set ((name, child) # entries) \<and> is_dir c \<and> img_at c q))"
    proof
      show "distinct (image_paths_entries ((name, child) # entries))"
        unfolding ip using dC ihe(1) disj by simp
      have "\<And>p. (\<exists>name' c q. p = name' # q \<and> (name', c) \<in> set ((name, child) # entries) \<and> is_dir c \<and> img_at c q)
          \<longleftrightarrow> (\<exists>q. p = name # q \<and> is_dir child \<and> img_at child q)
             \<or> (\<exists>name' c q. p = name' # q \<and> (name', c) \<in> set entries \<and> is_dir c \<and> img_at c q)"
        by auto
      then show "\<forall>p. p \<in> set (image_paths_entries ((name, child) # entries)) \<longleftrightarrow>
        (\<exists>name' c q. p = name' # q \<and> (name', c) \<in> set ((name, child) # entries) \<and> is_dir c \<and> img_at c q)"
        unfolding ip by (simp add: mC ihe(2))
    qed
  qed
qed

lemma visible_valid: "wf_node n \<Longrightarrow> visible n p = Some m \<Longrightarrow> \<forall>x\<in>set p. valid_name x"
proof (induction n p rule: visible.induct)
  case (2 readable entries c cs)
  then show ?case
    by (auto split: if_splits option.splits simp: wf_entries_iff dest!: map_of_SomeD)
qed simp_all

lemma image_paths_valid:
  "wf_node n \<Longrightarrow> p \<in> set (image_paths n) \<Longrightarrow> p \<noteq> [] \<and> (\<forall>x\<in>set p. valid_name x)"
  using image_paths_props(1) [of n] visible_valid [of n p] by (auto simp: img_at_def)

lemma distinct_image_names:
  assumes "wf_node n"
  shows "distinct (map join_sep (image_paths n))"
proof -
  have "inj_on join_sep (set (image_paths n))"
  proof (rule inj_onI)
    fix x y
    assume "x \<in> set (image_paths n)" "y \<in> set (image_paths n)" "join_sep x = join_sep y"
    then show "x = y"
      using image_paths_valid [OF assms] join_sep_inj [of x y] valid_name_noslash by blast
  qed
  then show ?thesis using image_paths_props(1) [of n] assms by (simp add: distinct_map)
qed

subsection \<open>URLs are injective\<close>







subsection \<open>The picker\<close>




subsection \<open>Resolving paths and serving files\<close>


lemma resolve_comps_stay:
  "c = [] \<or> c = ''.'' \<Longrightarrow>
   resolve_comps rt l [c] = (case node_at rt l of Some (Directory r es) \<Rightarrow> Some l | _ \<Rightarrow> None)"
  by (auto split: option.splits node.splits)






























subsection \<open>The picker and the scanner's failures\<close>



text \<open>
  Claim C4. When the scan finds no image, the selection is empty and the endpoint answers
  with the empty JSON array, status 200.
\<close>

theorem no_images_empty_array:
  assumes "fst (list_image_files w (IMAGE_DIR env)) = Inr []"
  shows "fst (random_images w env host_url g) = Inr (Json []) \<and>
         http_status (fst (random_images w env host_url g)) = 200"
proof -
  obtain logged where "list_image_files w (IMAGE_DIR env) = (Inr [], logged)"
    using assms by (cases "list_image_files w (IMAGE_DIR env)") simp
  then show ?thesis by (simp add: random_images_def http_status_def)
qed

theorem no_images_empty_array_witness:
  "fst (list_image_files demo_world (IMAGE_DIR [''IMAGE_DIR'' \<mapsto> ''/srv/pics/empty''])) = Inr [] \<and>
   fst (random_images demo_world [''IMAGE_DIR'' \<mapsto> ''/srv/pics/empty''] ''http://h'' (\<lambda>i. 3))
     = Inr (Json []) \<and>
   http_status (fst (random_images demo_world [''IMAGE_DIR'' \<mapsto> ''/srv/pics/empty''] ''http://h'' (\<lambda>i. 3))) = 200"
proof -
  have a: "fst (list_image_files demo_world (IMAGE_DIR [''IMAGE_DIR'' \<mapsto> ''/srv/pics/empty''])) = Inr []"
    by code_simp
  from no_images_empty_array [OF a, of "''http://h''" "\<lambda>i. 3"] show ?thesis using a by blast
qed

text \<open>
  Claim C5, evaluated where it fails: with no \<open>IMAGE_DIR\<close> in the environment the start
  logs the error, and every request to the endpoint raises \<open>TypeError\<close> (status 500)
  instead of answering with the empty list; with \<open>IMAGE_DIR\<close> set to the empty string,
  which the start logs in the same way, the answer is the empty list.
\<close>

theorem unset_image_dir_fails:
  "startup_log Map.empty = [ErrorNotSet] \<and>
   random_images w Map.empty host_url g = (Inl PyTypeError, []) \<and>
   http_status (fst (random_images w Map.empty host_url g)) = 500 \<and>
   startup_log [''IMAGE_DIR'' \<mapsto> ''''] = [ErrorNotSet] \<and>
   fst (random_images w [''IMAGE_DIR'' \<mapsto> ''''] host_url g) = Inr (Json [])"
  by (simp add: startup_log_def IMAGE_DIR_def random_images_def list_image_files_def
      os_walk_def http_status_def stat_def)

text \<open>
  Claim C6. When the path of the root does not lead to a directory that can be listed (it
  does not exist, is no directory, or cannot be read), the scanner returns the empty list,
  raises nothing, and logs its one line about the zero images found.
\<close>

theorem missing_root_silent:
  assumes "\<forall>loc entries. stat w d \<noteq> Some (loc, Directory True entries)"
  shows "list_image_files w (Some d) = (Inr [], [InfoFound 0 (Some d)])"
proof -
  have "os_walk w (Some d) = Inr []"
  proof (cases "stat w d")
    case None
    then show ?thesis by (simp add: os_walk_def)
  next
    case (Some a)
    obtain loc n where a: "a = (loc, n)" by (cases a)
    have "walk_node d n = []"
    proof (cases n)
      case (Directory r es)
      then have "\<not> r" using assms Some a by auto
      then show ?thesis using Directory by simp
    qed simp_all
    then show ?thesis using Some a by (simp add: os_walk_def)
  qed
  then show ?thesis by (simp add: list_image_files_def)
qed

theorem missing_root_silent_witness:
  "(\<forall>loc entries. stat demo_world ''/srv/pics/locked'' \<noteq> Some (loc, Directory True entries)) \<and>
   (\<forall>loc entries. stat demo_world ''/srv/nowhere'' \<noteq> Some (loc, Directory True entries)) \<and>
   list_image_files demo_world (Some ''/srv/pics/locked'')
     = (Inr [], [InfoFound 0 (Some ''/srv/pics/locked'')]) \<and>
   list_image_files demo_world (Some ''/srv/nowhere'')
     = (Inr [], [InfoFound 0 (Some ''/srv/nowhere'')])"
proof -
  have "stat demo_world ''/srv/pics/locked''
        = Some ([''srv'', ''pics'', ''locked''], Directory False [(''d.png'', Regular True ''D'')])"
    by code_simp
  then have a: "\<forall>loc entries. stat demo_world ''/srv/pics/locked'' \<noteq> Some (loc, Directory True entries)"
    by simp
  have "stat demo_world ''/srv/nowhere'' = None" by code_simp
  then have b: "\<forall>loc entries. stat demo_world ''/srv/nowhere'' \<noteq> Some (loc, Directory True entries)"
    by simp
  from missing_root_silent [OF a] missing_root_silent [OF b] show ?thesis using a b by simp
qed

subsection \<open>The scanner\<close>

text \<open>
  Claim C3, as stated, fails: the scan of \<open>/srv/pics\<close> returns \<open>pipe.png\<close>, which is no
  regular file, and leaves out \<open>locked/d.png\<close>, a regular file under the root with an allowed
  extension, because its directory cannot be listed.
\<close>

theorem scan_not_only_regular:
  "fst (list_image_files demo_world (Some ''/srv/pics''))
     = Inr [''a.png'', ''B.JPG'', ''pipe.png'', ''sub/c.gif''] \<and>
   stat demo_world ''/srv/pics/pipe.png'' = Some ([''srv'', ''pics'', ''pipe.png''], Special) \<and>
   stat demo_world ''/srv/pics/locked/d.png''
     = Some ([''srv'', ''pics'', ''locked'', ''d.png''], Regular True ''D'')"
  by code_simp

text \<open>
  Claim C3, amended. In a well-formed world, scanning a path that leads to a node \<open>D\<close>
  returns, without duplicates and in the order of the walk, exactly the relative paths
  (names joined by \<open>/\<close>) of the entries below \<open>D\<close> that are not directories, are reached
  through directories that can be listed, and whose name ends, case-insensitively, in one
  of the allowed extensions; every other entry is left out.
\<close>

theorem scan_characterised:
  assumes "wf_world w" and "stat w d = Some (loc, D)"
  shows "\<exists>images. list_image_files w (Some d) = (Inr images, [InfoFound (length images) (Some d)]) \<and>
           images = map join_sep (image_paths D) \<and>
           distinct images \<and>
           set images = {join_sep p | p. img_at D p}"
proof -
  have wf: "wf_node D" using assms by (auto simp: wf_world_def dest: stat_node wf_node_at)
  have l: "list_image_files w (Some d)
         = (Inr (map join_sep (image_paths D)), [InfoFound (length (image_paths D)) (Some d)])"
    using assms by (rule list_image_files_tree)
  have d: "distinct (map join_sep (image_paths D))" using wf by (rule distinct_image_names)
  have "set (image_paths D) = {p. img_at D p}" using image_paths_props(1) [of D] wf by auto
  then have s: "set (map join_sep (image_paths D)) = {join_sep p | p. img_at D p}" by auto
  show ?thesis using l d s by simp
qed

theorem scan_characterised_witness:
  "wf_world demo_world \<and>
   stat demo_world ''/srv/pics/sub'' = Some ([''srv'', ''pics'', ''sub''], Directory True [(''c.gif'', Regular False ''C'')]) \<and>
   list_image_files demo_world (Some ''/srv/pics/sub'') = (Inr [''c.gif''], [InfoFound 1 (Some ''/srv/pics/sub'')]) \<and>
   {join_sep p | p. img_at (Directory True [(''c.gif'', Regular False ''C'')]) p} = {''c.gif''}"
proof -
  have a: "wf_world demo_world" by code_simp
  have b: "stat demo_world ''/srv/pics/sub''
           = Some ([''srv'', ''pics'', ''sub''], Directory True [(''c.gif'', Regular False ''C'')])"
    by code_simp
  have c: "image_paths (Directory True [(''c.gif'', Regular False ''C'')]) = [[''c.gif'']]"
    by code_simp
  from scan_characterised [OF a b] show ?thesis using a b c by auto
qed




subsection \<open>The layout renderer\<close>

lemma random_index_less: "0 < len \<Longrightarrow> random_index r len < len"
  unfolding random_index_def
  by (simp add: less_mult_imp_div_less mult.commute)

lemma random_index_one: "random_index m (Suc 0) = 0"
  by (simp add: random_index_def)

lemma half_index: "m < 2 * k \<Longrightarrow> (m * 2) div (2 * k) = (if m < k then 0 else (1::nat))"
proof -
  assume m: "m < 2 * k"
  have "(m * 2) div (2 * k) = m div k"
    by (simp add: mult.commute)
  moreover have "m < k \<Longrightarrow> m div k = 0" by simp
  moreover have "\<not> m < k \<Longrightarrow> m div k = 1"
    using m by (simp add: div_nat_eqI)
  ultimately show ?thesis by simp
qed

lemma random_index_two: "m < 2 ^ 53 \<Longrightarrow> random_index m 2 = (if m < 2 ^ 52 then 0 else 1)"
  unfolding random_index_def using half_index [of m "2 ^ 52"] by simp

lemma card_one: "i < 1 \<Longrightarrow> card {m::nat. m < 2 ^ 53 \<and> random_index m 1 = i} = 2 ^ 53 div 1"
  by (simp add: random_index_one)

lemma card_two: 
  assumes "i < 2" shows "card {m::nat. m < 2 ^ 53 \<and> random_index m 2 = i} = 2 ^ 53 div 2"
proof -
  have "i = 0 \<or> i = 1" using assms by auto
  then show ?thesis
  proof
    assume i: "i = 0"
    have "{m::nat. m < 2 ^ 53 \<and> random_index m 2 = i} = {..<2 ^ 52}"
      unfolding i by (auto simp: random_index_two split: if_splits)
    then show ?thesis by simp
  next
    assume i: "i = 1"
    have "{m::nat. m < 2 ^ 53 \<and> random_index m 2 = i} = {2 ^ 52..<2 ^ 53}"
      unfolding i by (auto simp: random_index_two split: if_splits)
    then show ?thesis by simp
  qed
qed

lemma layouts_lengths: "layouts n = Some ts \<Longrightarrow> length ts = 1 \<or> length ts = 2"
  by (auto simp: layouts_def split: if_splits)

lemma layouts_slots: "layouts n = Some ts \<Longrightarrow> l \<in> set ts \<Longrightarrow> length l = n"
  by (auto simp: layouts_def split: if_splits)

lemma pick_templates_Some: "\<exists>ts. pick_templates n = Some ts \<and> (length ts = 1 \<or> length ts = 2)"
proof (cases "layouts n")
  case None
  then show ?thesis by (simp add: pick_templates_def) (simp add: layouts_def)
next
  case (Some a)
  then show ?thesis using layouts_lengths [OF Some] by (simp add: pick_templates_def)
qed

text \<open>
  Claim C7. For a fetched selection of \<open>N \<ge> 1\<close> URLs the renderer finds a layout: the
  templates are the table's entry for \<open>N\<close> when there is one and the entry for 1 (a single
  full-screen slot) otherwise, the layout is one of these templates, every template is
  drawn by the same number of the \<open>2^53\<close> values of \<open>Math.random\<close>, and the images are
  placed by that layout.
\<close>

theorem layout_located:
  assumes "1 \<le> length urls"
  shows "\<exists>templates layout.
           pick_templates (length urls) = Some templates \<and>
           (case layouts (length urls) of Some ts \<Rightarrow> templates = ts
            | None \<Rightarrow> templates = [[slot ''0%'' ''0%'' ''100%'' ''100%'']]) \<and>
           js_index templates (random_index r (length templates)) = Some layout \<and>
           layout \<in> set templates \<and>
           (\<forall>i<length templates.
              card {m. m < 2 ^ 53 \<and> random_index m (length templates) = i} = 2 ^ 53 div length templates) \<and>
           container (fetchAndDisplayImages (Urls urls) r pg) = fst (place_images layout 0 urls [])"
proof -
  obtain ts where ts: "pick_templates (length urls) = Some ts" and len: "length ts = 1 \<or> length ts = 2"
    using pick_templates_Some by blast
  have pos: "0 < length ts" using len by auto
  define layout where "layout = ts ! random_index r (length ts)"
  have idx: "js_index ts (random_index r (length ts)) = Some layout"
    by (simp add: js_index_def layout_def random_index_less [OF pos])
  have mem: "layout \<in> set ts"
    by (simp add: layout_def random_index_less [OF pos])
  have tab: "case layouts (length urls) of Some t \<Rightarrow> ts = t
            | None \<Rightarrow> ts = [[slot ''0%'' ''0%'' ''100%'' ''100%'']]"
    using ts by (auto simp: pick_templates_def split: option.splits) (simp add: layouts_def)
  have uni: "\<forall>i<length ts. card {m. m < 2 ^ 53 \<and> random_index m (length ts) = i} = 2 ^ 53 div length ts"
    using len card_one card_two by auto
  have ne: "length urls \<noteq> 0" using assms by auto
  have shown: "container (fetchAndDisplayImages (Urls urls) r pg) = fst (place_images layout 0 urls [])"
    using ne by (simp add: fetchAndDisplayImages_def ts idx split: prod.splits option.splits)
  show ?thesis using ts tab idx mem uni shown by blast
qed

theorem layout_located_witness:
  "1 \<le> length [''u1'', ''u2''] \<and> pick_templates 2 = layouts 2 \<and> pick_templates 7 = layouts 1 \<and>
   container (fetchAndDisplayImages (Urls [''u1'', ''u2'']) (2 ^ 52) \<lparr>container = [], console = []\<rparr>)
     = [Img ''u1'' (slot ''0%'' ''0%'' ''100%'' ''50%''), Img ''u2'' (slot ''0%'' ''50%'' ''100%'' ''50%'')]"
  using layout_located [of "[''u1'', ''u2'']" "2 ^ 52" "\<lparr>container = [], console = []\<rparr>"]
  by (simp add: pick_templates_def layouts_def fetchAndDisplayImages_def js_index_def random_index_def)

text \<open>
  Claim C8, as stated, fails: after a rejected fetch on the first load the renderer is idle
  again, but the container holds no message (it is as empty as before); and a response
  that is not JSON leaves the image of the cycle before on display.
\<close>

theorem failure_without_message:
  "phase_of (step (Response Rejected 0) (step Load initial)) = Idle \<and>
   \<not> shows_message (shown (step (Response Rejected 0) (step Load initial))) \<and>
   container (shown (step (Response NotJson 0)
      (step Tick (step (Response (Urls [''http://h/images/a.png'']) 0) (step Load initial)))))
     = [Img ''http://h/images/a.png'' (slot ''0%'' ''0%'' ''100%'' ''100%'')]"
  by (simp add: initial_def phase_of_def shows_message_def fetchAndDisplayImages_def
      pick_templates_def layouts_def js_index_def random_index_def)

text \<open>
  Claim C8, amended. When the fetch is rejected or its body is not JSON, the renderer goes
  from fetching back to idle, the container is left exactly as it was, one error is written
  to the console, the interval stays registered, and its next tick starts a new fetch.
\<close>

theorem failure_keeps_display:
  assumes "failure outcome" and "in_flight s = 1"
  shows "phase_of (step (Response outcome r) s) = Idle \<and>
         container (shown (step (Response outcome r) s)) = container (shown s) \<and>
         (\<exists>e. console (shown (step (Response outcome r) s)) = console (shown s) @ [e]) \<and>
         interval (step (Response outcome r) s) = interval s \<and>
         (interval s \<longrightarrow> phase_of (step Tick (step (Response outcome r) s)) = Fetching)"
  using assms
  by (cases outcome) (simp_all add: failure_def phase_of_def fetchAndDisplayImages_def)

theorem failure_keeps_display_witness:
  "failure NotJson \<and> in_flight (step Load initial) = 1 \<and>
   phase_of (step (Response NotJson 0) (step Load initial)) = Idle \<and>
   container (shown (step (Response NotJson 0) (step Load initial))) = [] \<and>
   console (shown (step (Response NotJson 0) (step Load initial))) = [SyntaxError] \<and>
   interval (step (Response NotJson 0) (step Load initial)) \<and>
   phase_of (step Tick (step (Response NotJson 0) (step Load initial))) = Fetching"
  using failure_keeps_display [of NotJson "step Load initial" 0]
  by (simp add: failure_def initial_def fetchAndDisplayImages_def phase_of_def)

subsection \<open>The image-serving endpoint\<close>






end
